theory Spec2Isabelle
  imports Main "HOL-Library.Word"
begin

unbundle bit_operations_syntax

section \<open>Data model\<close>

type_synonym byte = "8 word"
type_synonym uint64 = "64 word"

text \<open>
  Go's \<^verbatim>\<open>[24]byte\<close>: an array value of exactly 24 bytes. The length is part of the
  type, so it is part of the HOL type as well; \<open>bytes\<close> reads the array as a list.
\<close>

typedef bytes24 = "{xs :: byte list. length xs = 24}"
  morphisms bytes array24
  by (rule exI [of _ "replicate 24 0"]) simp

text \<open>The zero value of \<^verbatim>\<open>[24]byte\<close> (what \<^verbatim>\<open>var g Generator\<close> holds).\<close>

definition zero24 :: bytes24 where
  "zero24 = array24 (replicate 24 0)"

text \<open>
  A slice \<^verbatim>\<open>a[:k]\<close> of an array aliases the array: what a callee writes through
  the slice is visible in the array. \<open>copy_into a s\<close> is the array \<open>a\<close> after its
  leading \<open>length s\<close> bytes were overwritten by the slice contents \<open>s\<close>.
\<close>

definition copy_into :: "bytes24 \<Rightarrow> byte list \<Rightarrow> bytes24" where
  "copy_into dst src = array24 (take 24 src @ drop (length src) (bytes dst))"

text \<open>
  A Go call either returns or panics. A panic is a value of the model, so that
  "never panics" is a statement that can be proved.
\<close>

datatype 'a outcome = Returns 'a | Panics string

text \<open>
  \<^verbatim>\<open>type Generator struct { seed [24]byte; counter uint64 }\<close>
\<close>

record Generator =
  seed :: bytes24
  counter :: uint64

section \<open>The library functions the package calls\<close>

text \<open>
  \<^verbatim>\<open>binary.LittleEndian.Uint64(b)\<close> of encoding/binary: a bounds check on \<^verbatim>\<open>b[7]\<close>
  (a run-time panic on a shorter slice), then
  \<^verbatim>\<open>uint64(b[0]) | uint64(b[1])<<8 | ... | uint64(b[7])<<56\<close>.
\<close>

definition Uint64 :: "byte list \<Rightarrow> uint64 outcome" where
  "Uint64 b =
     (if length b < 8 then Panics ''index out of range''
      else Returns
        (ucast (b ! 0) OR push_bit 8 (ucast (b ! 1)) OR push_bit 16 (ucast (b ! 2))
         OR push_bit 24 (ucast (b ! 3)) OR push_bit 32 (ucast (b ! 4))
         OR push_bit 40 (ucast (b ! 5)) OR push_bit 48 (ucast (b ! 6))
         OR push_bit 56 (ucast (b ! 7))))"

text \<open>
  \<^verbatim>\<open>binary.LittleEndian.PutUint64(b, v)\<close>: the same bounds check, then
  \<^verbatim>\<open>b[0] = byte(v); b[1] = byte(v >> 8); ...; b[7] = byte(v >> 56)\<close>.
  The model returns the slice contents after the writes.
\<close>

definition PutUint64 :: "byte list \<Rightarrow> uint64 \<Rightarrow> byte list outcome" where
  "PutUint64 b v =
     (if length b < 8 then Panics ''index out of range''
      else Returns
        (b[0 := ucast v, 1 := ucast (drop_bit 8 v), 2 := ucast (drop_bit 16 v),
           3 := ucast (drop_bit 24 v), 4 := ucast (drop_bit 32 v),
           5 := ucast (drop_bit 40 v), 6 := ucast (drop_bit 48 v),
           7 := ucast (drop_bit 56 v)]))"

text \<open>
  The random source. \<^verbatim>\<open>rand.Read(b)\<close> of crypto/rand is \<^verbatim>\<open>io.ReadFull(rand.Reader, b)\<close>:
  it fills \<open>b\<close> from the bytes the reader supplies and returns an error when the reader
  runs out before \<open>b\<close> is full. A source is the bytes it can supply and the message of
  the error it reports after them (the test installs \<^verbatim>\<open>bytes.NewReader(buf[:])\<close>).
  \<open>rand_Read\<close> returns the buffer contents after the call, the number of bytes read
  and the error, if any.
\<close>

record rand_source =
  available :: "byte list"
  failure :: string

definition rand_Read :: "rand_source \<Rightarrow> byte list \<Rightarrow> byte list \<times> nat \<times> string option" where
  "rand_Read r b =
     (if length b \<le> length (available r)
      then (take (length b) (available r), length b, None)
      else (available r @ drop (length (available r)) b, length (available r), Some (failure r)))"

section \<open>The generator\<close>

text \<open>
  \<^verbatim>\<open>func NewGenerator() (*Generator, error)\<close>. The result pair is the Go result
  pair: a pointer (\<open>None\<close> is nil) and an error (\<open>None\<close> is nil).
\<close>

definition NewGenerator :: "rand_source \<Rightarrow> (Generator option \<times> string option) outcome" where
  "NewGenerator r =
     (let g = \<lparr>seed = zero24, counter = 0\<rparr>;
          (buf, n, err) = rand_Read r (bytes (seed g));
          g = g\<lparr>seed := copy_into (seed g) buf\<rparr>
      in case err of
           Some e \<Rightarrow> Returns (None, Some (''cannot generate random seed: '' @ e))
         | None \<Rightarrow>
             (case Uint64 (take 8 (bytes (seed g))) of
                Panics m \<Rightarrow> Panics m
              | Returns x \<Rightarrow> Returns (Some (g\<lparr>counter := x\<rparr>), None)))"

text \<open>\<^verbatim>\<open>func MustNewGenerator() *Generator\<close>: panics with the error of NewGenerator.\<close>

definition MustNewGenerator :: "rand_source \<Rightarrow> Generator option outcome" where
  "MustNewGenerator r =
     (case NewGenerator r of
        Panics m \<Rightarrow> Panics m
      | Returns (g, err) \<Rightarrow> (case err of Some e \<Rightarrow> Panics e | None \<Rightarrow> Returns g))"

text \<open>
  \<^verbatim>\<open>func (g *Generator) Next() [24]byte\<close>. \<^verbatim>\<open>atomic.AddUint64(&g.counter, 1)\<close>
  stores the counter plus one (wrapping, as uint64 addition does) and returns the
  stored value. The model returns the identifier and the generator after the call.
\<close>

definition Next :: "Generator \<Rightarrow> (bytes24 \<times> Generator) outcome" where
  "Next g =
     (let x = counter g + 1;
          g = g\<lparr>counter := x\<rparr>;
          uuid = seed g
      in case PutUint64 (take 8 (bytes uuid)) x of
           Panics m \<Rightarrow> Panics m
         | Returns b \<Rightarrow> Returns (copy_into uuid b, g))"

text \<open>\<open>n\<close> calls of Next, one after the other, on one generator: the identifiers in call order.\<close>

primrec Next_n :: "nat \<Rightarrow> Generator \<Rightarrow> (bytes24 list \<times> Generator) outcome" where
  "Next_n 0 g = Returns ([], g)"
| "Next_n (Suc n) g =
     (case Next g of
        Panics m \<Rightarrow> Panics m
      | Returns (u, g') \<Rightarrow>
          (case Next_n n g' of
             Panics m \<Rightarrow> Panics m
           | Returns (us, g'') \<Rightarrow> Returns (u # us, g'')))"

section \<open>Reading identifiers\<close>

text \<open>
  The number a byte sequence denotes in little-endian order: byte \<open>i\<close> has weight \<open>256 ^ i\<close>.
\<close>

primrec le_nat :: "byte list \<Rightarrow> nat" where
  "le_nat [] = 0"
| "le_nat (b # bs) = unat b + 256 * le_nat bs"

definition leading :: "bytes24 \<Rightarrow> nat" where
  "leading u = le_nat (take 8 (bytes u))"

text \<open>
  The little-endian encoding of a 64-bit value in 8 bytes: byte \<open>i\<close> holds bits
  \<open>8 * i\<close> to \<open>8 * i + 7\<close>.
\<close>

definition le64 :: "uint64 \<Rightarrow> byte list" where
  "le64 v = map (\<lambda>i. ucast (drop_bit (8 * i) v)) [0..<8]"

text \<open>The 64-bit value assembled from 8 bytes, lowest byte first.\<close>

definition join8 :: "byte \<Rightarrow> byte \<Rightarrow> byte \<Rightarrow> byte \<Rightarrow> byte \<Rightarrow> byte \<Rightarrow> byte \<Rightarrow> byte \<Rightarrow> uint64" where
  "join8 b0 b1 b2 b3 b4 b5 b6 b7 =
     ucast b0 OR push_bit 8 (ucast b1) OR push_bit 16 (ucast b2)
     OR push_bit 24 (ucast b3) OR push_bit 32 (ucast b4)
     OR push_bit 40 (ucast b5) OR push_bit 48 (ucast b6)
     OR push_bit 56 (ucast b7)"

text \<open>
  The leading values of the identifiers of \<open>n\<close> calls in a row (\<open>None\<close> if a call
  panics), and what it means for a sequence of numbers to go up by exactly one per step,
  as numbers and modulo \<open>2 ^ 64\<close>.
\<close>

definition leading_values :: "nat \<Rightarrow> Generator \<Rightarrow> nat list option" where
  "leading_values n g =
     (case Next_n n g of Panics m \<Rightarrow> None | Returns (us, g') \<Rightarrow> Some (map leading us))"

definition steps_by_one :: "nat list \<Rightarrow> bool" where
  "steps_by_one vs = list_all (\<lambda>(x, y). y = x + 1) (zip vs (tl vs))"

definition steps_by_one_mod :: "nat list \<Rightarrow> bool" where
  "steps_by_one_mod vs = list_all (\<lambda>(x, y). y = (x + 1) mod 2 ^ 64) (zip vs (tl vs))"

section \<open>Formatting and validation\<close>

text \<open>
  \<^verbatim>\<open>hex.Encode\<close> of encoding/hex: two digits per byte, high nibble first, from the
  table \<^verbatim>\<open>"0123456789abcdef"\<close>.
\<close>

definition hextable :: string where
  "hextable = ''0123456789abcdef''"

definition hex_Encode :: "byte list \<Rightarrow> string" where
  "hex_Encode src =
     concat (map (\<lambda>v. [hextable ! unat (drop_bit 4 v), hextable ! unat (v AND 0x0f)]) src)"

text \<open>
  Modelled from the spec: Hex128. Its code is not among the sources; the sources hold its
  test (TestHex128) and its README entry only. Spec, section 4.2: a 36-character string
  in groups of 8-4-4-4-12 lowercase hex digits formed from the first 16 bytes of the
  identifier, with two fixed nibble substitutions at the conventional version and
  variant positions (the first digit of the third group and the first digit of the
  fourth group). The test's expected string fixes the two markers (4 and 8) and, with
  its comment "byte 6 is swapped with byte 9", the order of the bytes.
\<close>

definition Hex128 :: "bytes24 \<Rightarrow> string" where
  "Hex128 uuid =
     (let u = take 16 (bytes uuid);
          u = u[6 := u ! 9, 9 := u ! 6];
          h = (hex_Encode u)[12 := CHR ''4'', 16 := CHR ''8'']
      in take 8 h @ ''-'' @ take 4 (drop 8 h) @ ''-'' @ take 4 (drop 12 h) @ ''-''
         @ take 4 (drop 16 h) @ ''-'' @ drop 20 h)"

text \<open>
  Modelled from the spec: ValidHex128. Its code is not among the sources; the sources
  hold its test table (validHex128Tests) and its README entry only. Spec, section 4.2:
  true iff the string is exactly 36 characters, has literal hyphens at the four
  separator positions of the 8-4-4-4-12 grouping, and every other character is a
  lowercase hex digit. A Go string is a sequence of bytes, as a HOL string is.
\<close>

definition isLowerHex :: "char \<Rightarrow> bool" where
  "isLowerHex c =
     (let n = (of_char c :: nat) in (48 \<le> n \<and> n \<le> 57) \<or> (97 \<le> n \<and> n \<le> 102))"

definition ValidHex128 :: "string \<Rightarrow> bool" where
  "ValidHex128 s =
     (length s = 36
      \<and> s ! 8 = CHR ''-'' \<and> s ! 13 = CHR ''-'' \<and> s ! 18 = CHR ''-'' \<and> s ! 23 = CHR ''-''
      \<and> list_all isLowerHex (take 8 s)
      \<and> list_all isLowerHex (take 4 (drop 9 s))
      \<and> list_all isLowerHex (take 4 (drop 14 s))
      \<and> list_all isLowerHex (take 4 (drop 19 s))
      \<and> list_all isLowerHex (drop 24 s))"

section \<open>Arrays and slices\<close>

lemma length_bytes: "length (bytes a) = 24"
  using bytes [of a] by simp

lemma bytes_zero24: "bytes zero24 = replicate 24 0"
  by (simp add: zero24_def array24_inverse)

lemma bytes_copy_into:
  "bytes (copy_into dst src) = take 24 src @ drop (length src) (bytes dst)"
  by (simp add: copy_into_def array24_inverse length_bytes)

lemma list8:
  "length b = 8 \<Longrightarrow> \<exists>b0 b1 b2 b3 b4 b5 b6 b7. b = [b0, b1, b2, b3, b4, b5, b6, b7]"
  by (auto simp: numeral_eq_Suc length_Suc_conv)

lemma le64_unfold:
  "le64 v = [ucast v, ucast (drop_bit 8 v), ucast (drop_bit 16 v), ucast (drop_bit 24 v),
     ucast (drop_bit 32 v), ucast (drop_bit 40 v), ucast (drop_bit 48 v),
     ucast (drop_bit 56 v)]"
  by (simp add: le64_def upt_rec)

lemma length_le64: "length (le64 v) = 8"
  by (simp add: le64_def)

section \<open>Little-endian encoding and decoding\<close>

lemma PutUint64_8: "length b = 8 \<Longrightarrow> PutUint64 b v = Returns (le64 v)"
  by (auto simp: PutUint64_def le64_unfold dest!: list8)

lemma Uint64_8: "Uint64 [b0, b1, b2, b3, b4, b5, b6, b7] = Returns (join8 b0 b1 b2 b3 b4 b5 b6 b7)"
  by (simp add: Uint64_def join8_def)

lemma byte_bit: "bit (b :: byte) n \<Longrightarrow> n < 8"
  by (auto dest: bit_imp_le_length)

lemma bit_shifted_byte:
  "bit (push_bit k (ucast (b :: byte)) :: uint64) n
     \<longleftrightarrow> k \<le> n \<and> n < k + 8 \<and> n < 64 \<and> bit b (n - k)"
  by (auto simp: bit_simps dest: byte_bit)

lemma bit_low_byte: "bit (ucast (b :: byte) :: uint64) n \<longleftrightarrow> n < 8 \<and> bit b n"
  using bit_shifted_byte [of 0 b n] by auto

lemma bit_join8:
  "bit (join8 b0 b1 b2 b3 b4 b5 b6 b7) n =
     (if n < 8 then bit b0 n else if n < 16 then bit b1 (n - 8)
      else if n < 24 then bit b2 (n - 16) else if n < 32 then bit b3 (n - 24)
      else if n < 40 then bit b4 (n - 32) else if n < 48 then bit b5 (n - 40)
      else if n < 56 then bit b6 (n - 48) else if n < 64 then bit b7 (n - 56)
      else False)"
  unfolding join8_def
  by (simp add: bit_or_iff bit_shifted_byte bit_low_byte)

lemma bit_byte_of:
  "bit (ucast (drop_bit k (w :: uint64)) :: byte) n = (n < 8 \<and> bit w (k + n))"
  by (auto simp: bit_simps)

lemma le64_join8: "le64 (join8 b0 b1 b2 b3 b4 b5 b6 b7) = [b0, b1, b2, b3, b4, b5, b6, b7]"
proof -
  let ?w = "join8 b0 b1 b2 b3 b4 b5 b6 b7"
  have 0: "ucast ?w = b0"
    using bit_byte_of [of 0 ?w] by (intro bit_word_eqI) (simp add: bit_join8)
  have 1: "ucast (drop_bit 8 ?w) = b1"
    by (rule bit_word_eqI) (simp add: bit_byte_of bit_join8)
  have 2: "ucast (drop_bit 16 ?w) = b2"
    by (rule bit_word_eqI) (simp add: bit_byte_of bit_join8)
  have 3: "ucast (drop_bit 24 ?w) = b3"
    by (rule bit_word_eqI) (simp add: bit_byte_of bit_join8)
  have 4: "ucast (drop_bit 32 ?w) = b4"
    by (rule bit_word_eqI) (simp add: bit_byte_of bit_join8)
  have 5: "ucast (drop_bit 40 ?w) = b5"
    by (rule bit_word_eqI) (simp add: bit_byte_of bit_join8)
  have 6: "ucast (drop_bit 48 ?w) = b6"
    by (rule bit_word_eqI) (simp add: bit_byte_of bit_join8)
  have 7: "ucast (drop_bit 56 ?w) = b7"
    by (rule bit_word_eqI) (simp add: bit_byte_of bit_join8)
  show ?thesis
    unfolding le64_unfold by (simp only: 0 1 2 3 4 5 6 7)
qed

lemma join8_le64:
  "join8 (ucast v) (ucast (drop_bit 8 v)) (ucast (drop_bit 16 v)) (ucast (drop_bit 24 v))
     (ucast (drop_bit 32 v)) (ucast (drop_bit 40 v)) (ucast (drop_bit 48 v))
     (ucast (drop_bit 56 v)) = v"
proof (rule bit_word_eqI)
  fix n :: nat
  assume "n < LENGTH(64)"
  then have n: "n < 64" by simp
  have low: "bit (ucast v :: byte) m = (m < 8 \<and> bit v m)" for m
    using bit_byte_of [of 0 v m] by simp
  have d: "m \<le> n \<Longrightarrow> n < m + 8 \<Longrightarrow> n - m < 8" for m
    by arith
  from n show "bit (join8 (ucast v) (ucast (drop_bit 8 v)) (ucast (drop_bit 16 v))
      (ucast (drop_bit 24 v)) (ucast (drop_bit 32 v)) (ucast (drop_bit 40 v))
      (ucast (drop_bit 48 v)) (ucast (drop_bit 56 v))) n = bit v n"
    by (simp add: bit_join8 bit_byte_of low) (intro conjI impI; simp add: d)
qed

lemma Uint64_le64: "Uint64 (le64 v) = Returns v"
  by (simp add: le64_unfold Uint64_8 join8_le64)

lemma Uint64_returns_8:
  assumes "length b = 8"
  shows "\<exists>w. Uint64 b = Returns w \<and> le64 w = b"
proof -
  from list8 [OF assms] obtain b0 b1 b2 b3 b4 b5 b6 b7
    where b: "b = [b0, b1, b2, b3, b4, b5, b6, b7]" by blast
  show ?thesis
    unfolding b by (simp add: Uint64_8 le64_join8)
qed

lemma le64_inject:
  assumes "le64 v = le64 w"
  shows "v = w"
proof -
  have "Returns v = Uint64 (le64 v)"
    by (simp only: Uint64_le64)
  also have "\<dots> = Uint64 (le64 w)"
    by (simp only: assms)
  also have "\<dots> = Returns w"
    by (simp only: Uint64_le64)
  finally show ?thesis by simp
qed

section \<open>The number an encoding denotes\<close>

lemma unat_low_byte: "unat (ucast (w :: uint64) :: byte) = unat w mod 256"
  by (simp add: unsigned_ucast_eq take_bit_eq_mod)

lemma unat_shift8: "unat (drop_bit 8 (w :: uint64)) = unat w div 256"
  by (simp add: drop_bit_eq_div unat_div_distrib)

lemma unat_split_byte:
  "unat (ucast (w :: uint64) :: byte) + 256 * unat (drop_bit 8 w) = unat w"
  by (simp add: unat_low_byte unat_shift8)

lemma drop_bit_64: "drop_bit 64 (w :: uint64) = 0"
  by (rule bit_word_eqI) (simp add: bit_simps)

lemma le_nat_le64: "le_nat (le64 v) = unat v"
proof -
  have s: "unat (ucast (drop_bit k v) :: byte) + 256 * unat (drop_bit (8 + k) v)
      = unat (drop_bit k v)" for k
    using unat_split_byte [of "drop_bit k v"] by simp
  have "unat (drop_bit 56 v) = unat (ucast (drop_bit 56 v) :: byte)"
    using s [of 56] by (simp add: drop_bit_64)
  then show ?thesis
    using s [of 0] s [of 8] s [of 16] s [of 24] s [of 32] s [of 40] s [of 48]
    by (simp add: le64_unfold)
qed

lemma unat_succ: "unat (c + 1 :: uint64) = (unat c + 1) mod 2 ^ 64"
proof -
  have "unat (c + 1) = (unat c + unat (1 :: uint64)) mod 2 ^ LENGTH(64)"
    by (rule unat_word_ariths(1))
  also have "unat (1 :: uint64) = 1"
    by (rule unsigned_1)
  also have "LENGTH(64) = 64"
    by simp
  finally show ?thesis .
qed

section \<open>What the generator computes\<close>

lemma bytes_identifier: "bytes (copy_into s (le64 x)) = le64 x @ drop 8 (bytes s)"
  by (simp add: bytes_copy_into length_le64)

lemma Next_eq:
  "Next g = Returns (copy_into (seed g) (le64 (counter g + 1)), g\<lparr>counter := counter g + 1\<rparr>)"
  by (simp add: Next_def Let_def PutUint64_8 length_bytes)

lemma leading_identifier: "leading (copy_into s (le64 x)) = unat x"
  by (simp add: leading_def bytes_identifier length_le64 le_nat_le64)

lemma rand_Read_full:
  "length b \<le> length (available r) \<Longrightarrow>
     rand_Read r b = (take (length b) (available r), length b, None)"
  by (simp add: rand_Read_def)

lemma rand_Read_short:
  "length (available r) < length b \<Longrightarrow>
     rand_Read r b =
       (available r @ drop (length (available r)) b, length (available r), Some (failure r))"
  by (simp add: rand_Read_def)

lemma NewGenerator_short:
  "length (available r) < 24 \<Longrightarrow>
     NewGenerator r = Returns (None, Some (''cannot generate random seed: '' @ failure r))"
  by (simp add: NewGenerator_def Let_def rand_Read_short length_bytes)

lemma NewGenerator_full:
  assumes "24 \<le> length (available r)"
  shows "\<exists>g. NewGenerator r = Returns (Some g, None)
     \<and> bytes (seed g) = take 24 (available r)
     \<and> Uint64 (take 8 (bytes (seed g))) = Returns (counter g)
     \<and> le64 (counter g) = take 8 (available r)"
proof -
  let ?s = "copy_into zero24 (take 24 (available r))"
  have b: "bytes ?s = take 24 (available r)"
    using assms by (simp add: bytes_copy_into length_bytes)
  have "length (take 8 (available r)) = 8"
    using assms by simp
  from Uint64_returns_8 [OF this] obtain c
    where c: "Uint64 (take 8 (available r)) = Returns c" "le64 c = take 8 (available r)"
    by blast
  have "NewGenerator r = Returns (Some \<lparr>seed = ?s, counter = c\<rparr>, None)"
    using assms c(1) by (simp add: NewGenerator_def Let_def rand_Read_full length_bytes b)
  then show ?thesis
    using b c by auto
qed

section \<open>Calls in a row\<close>

lemma map_upt_shift: "map f [0..<Suc n] = f 0 # map (\<lambda>k. f (Suc k)) [0..<n]"
  by (simp add: upt_conv_Cons map_Suc_upt [symmetric] del: upt_Suc)

lemma Next_n_eq:
  "Next_n n g =
     Returns (map (\<lambda>k. copy_into (seed g) (le64 (counter g + 1 + of_nat k))) [0..<n],
       g\<lparr>counter := counter g + of_nat n\<rparr>)"
proof (induction n arbitrary: g)
  case 0
  show ?case by simp
next
  case (Suc n)
  show ?case
    unfolding map_upt_shift
    by (simp add: Next_eq Suc.IH add.assoc add.commute add.left_commute)
qed

lemma leading_values_eq:
  "leading_values n g = Some (map (\<lambda>k. unat (counter g + 1 + of_nat k)) [0..<n])"
  by (simp add: leading_values_def Next_n_eq leading_identifier comp_def)

lemma unat_counter_plus: "unat (c + 1 + of_nat k :: uint64) = (unat c + 1 + k) mod 2 ^ 64"
proof -
  have "c + 1 + of_nat k = (of_nat (unat c + 1 + k) :: uint64)"
    by simp
  then show ?thesis
    by (simp only: unat_of_nat) simp
qed

lemma of_nat_eq_64:
  "(of_nat i :: uint64) = of_nat j \<longleftrightarrow> i mod 2 ^ 64 = j mod 2 ^ 64"
  using word_of_nat_eq_iff [where 'a = 64, of i j] by (simp add: take_bit_eq_mod)

lemma counters_differ:
  assumes "i < j" "j - i < 2 ^ 64"
  shows "(c + 1 + of_nat i :: uint64) \<noteq> c + 1 + of_nat j"
proof
  assume "c + 1 + of_nat i = c + 1 + of_nat j"
  then have "(of_nat j :: uint64) - of_nat i = 0"
    by simp
  then have "(of_nat (j - i) :: uint64) = 0"
    using assms(1) by simp
  then have "(j - i) mod 2 ^ 64 = 0"
    using of_nat_eq_64 [of "j - i" 0] by simp
  with assms show False
    by simp
qed

lemma Next_n_cycle:
  assumes "(of_nat N :: uint64) = 0"
  shows "\<exists>us. Next_n N g = Returns (us, g) \<and> length us = N"
proof -
  have "g\<lparr>counter := counter g + of_nat N\<rparr> = g"
    by (simp add: assms)
  then show ?thesis
    by (simp add: Next_n_eq)
qed

lemma list_all_zip_tl:
  "list_all P (zip xs (tl xs)) \<longleftrightarrow> (\<forall>i. Suc i < length xs \<longrightarrow> P (xs ! i, xs ! Suc i))"
  by (auto simp: list_all_length nth_tl)

lemma leading_values_mod:
  "leading_values n g = Some (map (\<lambda>k. (unat (counter g) + 1 + k) mod 2 ^ 64) [0..<n])"
  by (simp only: leading_values_eq unat_counter_plus)

section \<open>Strings\<close>

lemma isLowerHex_iff: "isLowerHex c \<longleftrightarrow> c \<in> set ''0123456789abcdef''"
proof
  assume "isLowerHex c"
  then have "(of_char c :: nat) \<in> of_char ` set ''0123456789abcdef''"
    unfolding isLowerHex_def Let_def by (simp; arith)
  then show "c \<in> set ''0123456789abcdef''"
    by (simp only: inj_image_mem_iff [OF inj_of_char])
next
  assume "c \<in> set ''0123456789abcdef''"
  then show "isLowerHex c"
    by (auto simp: isLowerHex_def)
qed

lemma list_all_slice:
  assumes "k + n \<le> length s"
  shows "list_all P (take n (drop k s)) \<longleftrightarrow> (\<forall>i. k \<le> i \<and> i < k + n \<longrightarrow> P (s ! i))"
proof -
  have "list_all P (take n (drop k s)) \<longleftrightarrow> (\<forall>j<n. P (s ! (k + j)))"
    using assms by (simp add: list_all_length)
  also have "\<dots> \<longleftrightarrow> (\<forall>i. k \<le> i \<and> i < k + n \<longrightarrow> P (s ! i))"
  proof (intro iffI allI impI)
    fix i
    assume a: "\<forall>j<n. P (s ! (k + j))" and i: "k \<le> i \<and> i < k + n"
    then have "i - k < n" by arith
    with a have "P (s ! (k + (i - k)))" by blast
    with i show "P (s ! i)" by simp
  next
    fix j
    assume "\<forall>i. k \<le> i \<and> i < k + n \<longrightarrow> P (s ! i)" and "j < n"
    then show "P (s ! (k + j))" by simp
  qed
  finally show ?thesis .
qed

lemma ValidHex128_tests:
  "ValidHex128 ''01020304-0506-0708-090a-0b0c0d0e0f10''"
  "\<not> ValidHex128 ''01020304-0506-0708-090a-0b0c0d0e0f1''"
  "\<not> ValidHex128 ''0102030430506-0708-090a-0b0c0d0e0f1''"
  "\<not> ValidHex128 ''01020304-050630708-090a-0b0c0d0e0f1''"
  "\<not> ValidHex128 ''01020304-0506-07084090a-0b0c0d0e0f1''"
  "\<not> ValidHex128 ''01020304-0506-0708-090a50b0c0d0e0f1''"
  "\<not> ValidHex128 ''01020304-0506-0708-090a-0b0c0d0e0f1''"
  "\<not> ValidHex128 ''01020304-0506-0708-090a-0b0c0d0e0f102''"
  "\<not> ValidHex128 ''01020304-0506-0708-090a-0b0c0d0e0f1/''"
  by (simp_all add: ValidHex128_def isLowerHex_def)

lemma length_hex_Encode: "length (hex_Encode src) = 2 * length src"
  by (induction src) (simp_all add: hex_Encode_def)

lemma Hex128_unfold:
  "Hex128 uuid =
     (let u = take 16 (bytes uuid);
          h = (hex_Encode (u[6 := u ! 9, 9 := u ! 6]))[12 := CHR ''4'', 16 := CHR ''8'']
      in take 8 h @ ''-'' @ take 4 (drop 8 h) @ ''-'' @ take 4 (drop 12 h) @ ''-''
         @ take 4 (drop 16 h) @ ''-'' @ drop 20 h)"
  by (simp add: Hex128_def Let_def)

lemma Hex128_markers:
  "length (Hex128 u) = 36 \<and> Hex128 u ! 8 = CHR ''-'' \<and> Hex128 u ! 13 = CHR ''-''
     \<and> Hex128 u ! 14 = CHR ''4'' \<and> Hex128 u ! 18 = CHR ''-'' \<and> Hex128 u ! 19 = CHR ''8''
     \<and> Hex128 u ! 23 = CHR ''-''"
proof -
  let ?u = "take 16 (bytes u)"
  let ?h = "(hex_Encode (?u[6 := ?u ! 9, 9 := ?u ! 6]))[12 := CHR ''4'', 16 := CHR ''8'']"
  have l: "length ?h = 32"
    by (simp add: length_hex_Encode length_bytes)
  have 12: "?h ! 12 = CHR ''4''" and 16: "?h ! 16 = CHR ''8''"
    by (simp_all add: length_hex_Encode length_bytes)
  show ?thesis
    unfolding Hex128_unfold Let_def
    using l 12 16 by (simp add: nth_append)
qed

lemma hex_digit_lower: "k < 16 \<Longrightarrow> isLowerHex (hextable ! k)"
proof -
  have "list_all isLowerHex hextable"
    by (simp add: hextable_def isLowerHex_def)
  moreover assume "k < 16"
  ultimately show ?thesis
    by (simp add: list_all_length hextable_def)
qed

lemma high_nibble: "unat (drop_bit 4 (v :: byte)) < 16"
proof -
  have "unat v < 256"
    using unsigned_less [of v, where 'a = nat] by simp
  then show ?thesis
    by (simp add: drop_bit_eq_div unat_div_distrib)
qed

lemma low_nibble: "unat ((v :: byte) AND 0x0f) < 16"
proof -
  have "unat (v AND 15) \<le> unat (15 :: byte)"
    by (rule word_and_le1 [THEN word_le_nat_alt [THEN iffD1]])
  then show ?thesis by simp
qed

lemma hex_Encode_lower: "list_all isLowerHex (hex_Encode src)"
  by (induction src) (simp_all add: hex_Encode_def hex_digit_lower high_nibble low_nibble)

lemma list_all_update: "list_all P xs \<Longrightarrow> P v \<Longrightarrow> list_all P (xs[i := v])"
  by (cases "i < length xs") (auto simp: list_all_length nth_list_update)

lemma list_all_take_drop:
  assumes "list_all P xs"
  shows "list_all P (take n (drop k xs))"
proof -
  have "set (take n (drop k xs)) \<subseteq> set xs"
    using set_take_subset [of n "drop k xs"] set_drop_subset [of k xs] by (rule subset_trans)
  with assms show ?thesis
    unfolding list_all_iff by blast
qed

lemma ValidHex128_groups:
  assumes "length a = 8" "length b = 4" "length c = 4" "length d = 4" "length e = 12"
    and "list_all isLowerHex a" "list_all isLowerHex b" "list_all isLowerHex c"
      "list_all isLowerHex d" "list_all isLowerHex e"
  shows "ValidHex128 (a @ ''-'' @ b @ ''-'' @ c @ ''-'' @ d @ ''-'' @ e)"
  unfolding ValidHex128_def using assms by (simp add: nth_append)

lemma Hex128_valid: "ValidHex128 (Hex128 u)"
proof -
  let ?u = "take 16 (bytes u)"
  let ?h = "(hex_Encode (?u[6 := ?u ! 9, 9 := ?u ! 6]))[12 := CHR ''4'', 16 := CHR ''8'']"
  have l: "length ?h = 32"
    by (simp add: length_hex_Encode length_bytes)
  have "isLowerHex CHR ''4''" "isLowerHex CHR ''8''"
    by (simp_all add: isLowerHex_def)
  then have a: "list_all isLowerHex ?h"
    by (intro list_all_update hex_Encode_lower)
  have s: "list_all isLowerHex (take n (drop k ?h))" for n k
    using a by (rule list_all_take_drop)
  have d: "list_all isLowerHex (drop 20 ?h)"
    using s [of 12 20] l by simp
  have t: "list_all isLowerHex (take 8 ?h)"
    using s [of 8 0] by simp
  have "ValidHex128 (take 8 ?h @ ''-'' @ take 4 (drop 8 ?h) @ ''-'' @ take 4 (drop 12 ?h)
      @ ''-'' @ take 4 (drop 16 ?h) @ ''-'' @ drop 20 ?h)"
  proof (rule ValidHex128_groups)
    show "length (take 8 ?h) = 8" "length (take 4 (drop 8 ?h)) = 4"
      "length (take 4 (drop 12 ?h)) = 4" "length (take 4 (drop 16 ?h)) = 4"
      "length (drop 20 ?h) = 12"
      by (simp_all only: length_take length_drop l)
    show "list_all isLowerHex (take 8 ?h)" by (rule t)
    show "list_all isLowerHex (drop 20 ?h)" by (rule d)
  qed (rule s)+
  then show ?thesis
    by (simp only: Hex128_unfold Let_def)
qed

section \<open>The claims\<close>

text \<open>
  C1. In every generator state, with counter \<open>c\<close> and seed \<open>s\<close>, Next returns the
  24-byte value whose first 8 bytes are the little-endian encoding of \<open>c + 1\<close> modulo
  \<open>2 ^ 64\<close> (as bytes, and as the number they denote) and whose bytes 8 to 23 are those
  of \<open>s\<close>; the generator after the call is the one before it with the counter set to
  \<open>c + 1\<close>, so the seed is unchanged.
\<close>

theorem Next_identifier:
  "\<exists>u g'. Next g = Returns (u, g')
     \<and> take 8 (bytes u) = le64 (counter g + 1)
     \<and> leading u = (unat (counter g) + 1) mod 2 ^ 64
     \<and> drop 8 (bytes u) = drop 8 (bytes (seed g))
     \<and> length (bytes u) = 24
     \<and> g' = g\<lparr>counter := counter g + 1\<rparr>
     \<and> seed g' = seed g"
  by (simp add: Next_eq bytes_identifier length_le64 leading_identifier unat_succ length_bytes)

text \<open>
  C2. Of the identifiers of \<open>n\<close> calls in a row on one generator, any two that fewer
  than \<open>2 ^ 64\<close> calls separate differ, and differ in their leading 8 bytes; bytes 8 to
  23 of every identifier are those of every other one (and of the seed). Calls are taken
  in the order of their atomic increments.
\<close>

theorem Next_calls_differ:
  "\<exists>us g'. Next_n n g = Returns (us, g') \<and> length us = n
     \<and> (\<forall>i j. i < j \<and> j < n \<and> j - i < 2 ^ 64 \<longrightarrow>
           us ! i \<noteq> us ! j \<and> take 8 (bytes (us ! i)) \<noteq> take 8 (bytes (us ! j)))
     \<and> (\<forall>i j. i < n \<and> j < n \<longrightarrow> drop 8 (bytes (us ! i)) = drop 8 (bytes (us ! j)))
     \<and> (\<forall>i. i < n \<longrightarrow> drop 8 (bytes (us ! i)) = drop 8 (bytes (seed g)))"
proof -
  let ?f = "\<lambda>k. copy_into (seed g) (le64 (counter g + 1 + of_nat k))"
  let ?us = "map ?f [0..<n]"
  have d: "take 8 (bytes (?us ! i)) \<noteq> take 8 (bytes (?us ! j))"
    if "i < j" "j < n" "j - i < 2 ^ 64" for i j
  proof
    assume "take 8 (bytes (?us ! i)) = take 8 (bytes (?us ! j))"
    with that have "le64 (counter g + 1 + of_nat i) = le64 (counter g + 1 + of_nat j)"
      by (simp add: bytes_identifier length_le64)
    then have "counter g + 1 + of_nat i = counter g + 1 + of_nat j"
      by (rule le64_inject)
    with counters_differ [OF that(1) that(3)] show False
      by blast
  qed
  have d': "?us ! i \<noteq> ?us ! j" if "i < j" "j < n" "j - i < 2 ^ 64" for i j
    using d [OF that] by auto
  have t: "drop 8 (bytes (?us ! i)) = drop 8 (bytes (seed g))" if "i < n" for i
    using that by (simp add: bytes_identifier length_le64)
  show ?thesis
    unfolding Next_n_eq using d d' t by auto
qed

theorem Next_calls_differ_witness:
  "\<exists>us g'. Next_n 3 \<lparr>seed = zero24, counter = 7\<rparr> = Returns (us, g')
     \<and> us ! 0 \<noteq> us ! 2 \<and> take 8 (bytes (us ! 0)) \<noteq> take 8 (bytes (us ! 2))
     \<and> drop 8 (bytes (us ! 0)) = drop 8 (bytes (us ! 2))"
proof -
  from Next_calls_differ [of 3 "\<lparr>seed = zero24, counter = 7\<rparr>"] obtain us g'
    where r: "Next_n 3 \<lparr>seed = zero24, counter = 7\<rparr> = Returns (us, g')"
      and d: "\<forall>i j. i < j \<and> j < 3 \<and> j - i < 2 ^ 64 \<longrightarrow>
           us ! i \<noteq> us ! j \<and> take 8 (bytes (us ! i)) \<noteq> take 8 (bytes (us ! j))"
      and t: "\<forall>i j. i < 3 \<and> j < 3 \<longrightarrow> drop 8 (bytes (us ! i)) = drop 8 (bytes (us ! j))"
    by blast
  have "(0::nat) < 2 \<and> (2::nat) < 3 \<and> (2::nat) - 0 < 2 ^ 64"
    by simp
  with d have "us ! 0 \<noteq> us ! 2 \<and> take 8 (bytes (us ! 0)) \<noteq> take 8 (bytes (us ! 2))"
    by blast
  moreover from t have "drop 8 (bytes (us ! 0)) = drop 8 (bytes (us ! 2))"
    by simp
  ultimately show ?thesis
    using r by blast
qed

text \<open>
  C3, as stated: the leading values of the identifiers of any sequence of calls in a
  row go up by exactly one per call. It fails where the counter wraps: the generator
  that NewGenerator builds from a source whose first 8 bytes are FE FF FF FF FF FF FF FF
  returns the leading values \<open>2 ^ 64 - 1\<close> and then \<open>0\<close>.
\<close>

theorem leading_values_wrap:
  "NewGenerator \<lparr>available = [0xFE, 0xFF, 0xFF, 0xFF, 0xFF, 0xFF, 0xFF, 0xFF, 0, 0, 0, 0,
         0, 0, 0, 0, 0, 0, 0, 0, 0, 0, 0, 0], failure = ''EOF''\<rparr>
       = Returns (Some \<lparr>seed = copy_into zero24 [0xFE, 0xFF, 0xFF, 0xFF, 0xFF, 0xFF, 0xFF, 0xFF,
           0, 0, 0, 0, 0, 0, 0, 0, 0, 0, 0, 0, 0, 0, 0, 0], counter = 0xFFFFFFFFFFFFFFFE\<rparr>, None)
     \<and> leading_values 2 \<lparr>seed = copy_into zero24 [0xFE, 0xFF, 0xFF, 0xFF, 0xFF, 0xFF, 0xFF, 0xFF,
           0, 0, 0, 0, 0, 0, 0, 0, 0, 0, 0, 0, 0, 0, 0, 0], counter = 0xFFFFFFFFFFFFFFFE\<rparr>
         = Some [18446744073709551615, 0]
     \<and> \<not> steps_by_one [18446744073709551615, 0]"
  by (simp add: NewGenerator_def Let_def rand_Read_def length_bytes bytes_copy_into bytes_zero24
      Uint64_def leading_values_eq steps_by_one_def upt_rec)

text \<open>
  C3, amended: the leading values of \<open>n\<close> calls in a row are the counter plus
  \<open>1, 2, ..., n\<close> modulo \<open>2 ^ 64\<close>, so each is the one before plus one modulo
  \<open>2 ^ 64\<close>; when the counter does not wrap during the calls, each is exactly the one
  before plus one.
\<close>

theorem leading_values_steps:
  "\<exists>vs. leading_values n g = Some vs \<and> length vs = n
     \<and> (\<forall>i<n. vs ! i = (unat (counter g) + 1 + i) mod 2 ^ 64)
     \<and> steps_by_one_mod vs
     \<and> (unat (counter g) + n < 2 ^ 64 \<longrightarrow> steps_by_one vs)"
proof -
  let ?a = "unat (counter g) + 1"
  let ?vs = "map (\<lambda>k. (?a + k) mod 2 ^ 64) [0..<n]"
  have m: "steps_by_one_mod ?vs"
    unfolding steps_by_one_mod_def list_all_zip_tl
    by (simp add: mod_Suc_eq)
  have s: "steps_by_one ?vs" if "unat (counter g) + n < 2 ^ 64"
    unfolding steps_by_one_def list_all_zip_tl
    using that by simp
  from m s show ?thesis
    unfolding leading_values_mod by simp
qed

theorem leading_values_steps_witness:
  "\<exists>vs. leading_values 3 \<lparr>seed = zero24, counter = 41\<rparr> = Some vs
     \<and> vs ! 0 = 42 \<and> vs ! 1 = 43 \<and> vs ! 2 = 44 \<and> steps_by_one vs"
proof -
  let ?g = "\<lparr>seed = zero24, counter = 41\<rparr>"
  from leading_values_steps [of 3 ?g] obtain vs
    where vs: "leading_values 3 ?g = Some vs"
      "\<forall>i<3. vs ! i = (unat (counter ?g) + 1 + i) mod 2 ^ 64"
      "unat (counter ?g) + 3 < 2 ^ 64 \<longrightarrow> steps_by_one vs"
    by blast
  have "unat (counter ?g) + 3 < 2 ^ 64"
    by simp
  with vs(3) have "steps_by_one vs"
    by blast
  moreover from vs(2) have "vs ! 0 = 42 \<and> vs ! 1 = 43 \<and> vs ! 2 = 44"
    by simp
  ultimately show ?thesis
    using vs(1) by blast
qed

text \<open>
  C4. When the random source supplies the 24 bytes \<open>b\<close>, NewGenerator succeeds, the
  first call of Next returns \<open>b\<close> with its leading 8 bytes replaced by the
  little-endian encoding of the little-endian value of \<open>b[0..7]\<close> plus 1, and the
  second call returns the same tail after the encoding of that value plus 2 (additions
  of uint64, modulo \<open>2 ^ 64\<close>). The witness is the run of TestUUID.
\<close>

theorem fixed_entropy:
  assumes "length b = 24"
  shows "\<exists>g c u1 g1 u2 g2. NewGenerator \<lparr>available = b, failure = e\<rparr> = Returns (Some g, None)
     \<and> Uint64 (take 8 b) = Returns c
     \<and> Next g = Returns (u1, g1) \<and> bytes u1 = le64 (c + 1) @ drop 8 b
     \<and> Next g1 = Returns (u2, g2) \<and> bytes u2 = le64 (c + 2) @ drop 8 b
     \<and> leading u1 = (le_nat (take 8 b) + 1) mod 2 ^ 64
     \<and> leading u2 = (le_nat (take 8 b) + 2) mod 2 ^ 64"
proof -
  let ?r = "\<lparr>available = b, failure = e\<rparr>"
  have "24 \<le> length (available ?r)"
    using assms by simp
  from NewGenerator_full [OF this] obtain g
    where g: "NewGenerator ?r = Returns (Some g, None)" "bytes (seed g) = b"
      "Uint64 (take 8 b) = Returns (counter g)" "le64 (counter g) = take 8 b"
    using assms by auto
  let ?c = "counter g"
  have n: "le_nat (take 8 b) = unat ?c"
    using g(4) le_nat_le64 [of ?c] by simp
  have 1: "Next g = Returns (copy_into (seed g) (le64 (?c + 1)), g\<lparr>counter := ?c + 1\<rparr>)"
    by (rule Next_eq)
  have 2: "Next (g\<lparr>counter := ?c + 1\<rparr>)
      = Returns (copy_into (seed g) (le64 (?c + 2)), g\<lparr>counter := ?c + 2\<rparr>)"
    by (simp add: Next_eq add.commute)
  have l1: "leading (copy_into (seed g) (le64 (?c + 1))) = (le_nat (take 8 b) + 1) mod 2 ^ 64"
    by (simp only: leading_identifier unat_succ n)
  have "?c + 2 = ?c + 1 + of_nat 1"
    by simp
  then have "unat (?c + 2) = (unat ?c + 1 + 1) mod 2 ^ 64"
    by (simp only: unat_counter_plus)
  then have l2: "leading (copy_into (seed g) (le64 (?c + 2))) = (le_nat (take 8 b) + 2) mod 2 ^ 64"
    by (simp add: leading_identifier n)
  show ?thesis
    using g(1) g(3) 1 2 l1 l2 by (simp add: bytes_identifier g(2))
qed

theorem fixed_entropy_witness:
  "\<exists>g u1 g1 u2 g2. NewGenerator \<lparr>available = [1, 2, 3, 4, 5, 6, 7, 8, 9, 10, 11, 12, 13, 14,
         15, 16, 17, 18, 19, 20, 21, 22, 23, 24], failure = ''EOF''\<rparr> = Returns (Some g, None)
     \<and> Next g = Returns (u1, g1)
     \<and> bytes u1 = [2, 2, 3, 4, 5, 6, 7, 8, 9, 10, 11, 12, 13, 14, 15, 16, 17, 18, 19, 20, 21,
         22, 23, 24]
     \<and> Next g1 = Returns (u2, g2)
     \<and> bytes u2 = [3, 2, 3, 4, 5, 6, 7, 8, 9, 10, 11, 12, 13, 14, 15, 16, 17, 18, 19, 20, 21,
         22, 23, 24]"
proof -
  let ?b = "[1, 2, 3, 4, 5, 6, 7, 8, 9, 10, 11, 12, 13, 14,
         15, 16, 17, 18, 19, 20, 21, 22, 23, 24] :: byte list"
  have "length ?b = 24"
    by simp
  from fixed_entropy [OF this, of "''EOF''"] obtain g c u1 g1 u2 g2
    where h: "NewGenerator \<lparr>available = ?b, failure = ''EOF''\<rparr> = Returns (Some g, None)"
      "Uint64 (take 8 ?b) = Returns c"
      "Next g = Returns (u1, g1)" "bytes u1 = le64 (c + 1) @ drop 8 ?b"
      "Next g1 = Returns (u2, g2)" "bytes u2 = le64 (c + 2) @ drop 8 ?b"
    by blast
  from h(2) have c: "c = 0x0807060504030201"
    by (simp add: Uint64_def)
  have "bytes u1 = [2, 2, 3, 4, 5, 6, 7, 8, 9, 10, 11, 12, 13, 14, 15, 16, 17, 18, 19, 20, 21,
         22, 23, 24]"
    unfolding h(4) c by (simp add: le64_unfold)
  moreover have "bytes u2 = [3, 2, 3, 4, 5, 6, 7, 8, 9, 10, 11, 12, 13, 14, 15, 16, 17, 18,
         19, 20, 21, 22, 23, 24]"
    unfolding h(6) c by (simp add: le64_unfold)
  ultimately show ?thesis
    using h(1) h(3) h(5) by blast
qed

text \<open>
  C5. NewGenerator returns an error exactly when the random source supplies fewer than
  the 24 bytes asked for, and it never panics. When the source supplies them, it returns
  a generator that holds the 24 bytes drawn as its seed and, as its counter, the
  little-endian value of the first 8 of them.
\<close>

theorem NewGenerator_errors:
  "((\<exists>p e. NewGenerator r = Returns (p, Some e)) \<longleftrightarrow> length (available r) < 24)
     \<and> (\<forall>m. NewGenerator r \<noteq> Panics m)
     \<and> (24 \<le> length (available r) \<longrightarrow>
          (\<exists>g. NewGenerator r = Returns (Some g, None)
             \<and> bytes (seed g) = take 24 (available r)
             \<and> Uint64 (take 8 (bytes (seed g))) = Returns (counter g)
             \<and> unat (counter g) = le_nat (take 8 (bytes (seed g)))))"
proof (cases "length (available r) < 24")
  case True
  with NewGenerator_short [OF True] show ?thesis
    by simp
next
  case False
  then have full: "24 \<le> length (available r)"
    by simp
  from NewGenerator_full [OF full] obtain g
    where g: "NewGenerator r = Returns (Some g, None)"
      "bytes (seed g) = take 24 (available r)"
      "Uint64 (take 8 (bytes (seed g))) = Returns (counter g)"
      "le64 (counter g) = take 8 (available r)"
    by blast
  have "le_nat (take 8 (bytes (seed g))) = le_nat (le64 (counter g))"
    using g(2) g(4) by simp
  then have "unat (counter g) = le_nat (take 8 (bytes (seed g)))"
    by (simp add: le_nat_le64)
  with False g show ?thesis
    by simp
qed

theorem NewGenerator_errors_witness:
  "(\<exists>p e. NewGenerator \<lparr>available = [1, 2, 3], failure = ''unexpected EOF''\<rparr> = Returns (p, Some e))
     \<and> (\<exists>g. NewGenerator
             \<lparr>available = [1, 2, 3, 4, 5, 6, 7, 8, 9, 10, 11, 12, 13, 14, 15, 16, 17, 18, 19, 20,
            21, 22, 23, 24], failure = ''EOF''\<rparr> = Returns (Some g, None)
           \<and> bytes (seed g) = [1, 2, 3, 4, 5, 6, 7, 8, 9, 10, 11, 12, 13, 14, 15, 16, 17, 18, 19, 20,
            21, 22, 23, 24]
           \<and> unat (counter g) = 578437695752307201)"
proof -
  let ?r = "\<lparr>available = [1, 2, 3], failure = ''unexpected EOF''\<rparr>"
  let ?s = "\<lparr>available = [1, 2, 3, 4, 5, 6, 7, 8, 9, 10, 11, 12, 13, 14, 15, 16, 17, 18, 19, 20,
            21, 22, 23, 24], failure = ''EOF''\<rparr>"
  have "length (available ?r) < 24"
    by simp
  with NewGenerator_errors [of ?r]
  have a: "\<exists>p e. NewGenerator ?r = Returns (p, Some e)"
    by blast
  have "24 \<le> length (available ?s)"
    by simp
  with NewGenerator_errors [of ?s] obtain g
    where g: "NewGenerator ?s = Returns (Some g, None)"
      "bytes (seed g) = take 24 (available ?s)"
      "unat (counter g) = le_nat (take 8 (bytes (seed g)))"
    by blast
  from g(2) have b: "bytes (seed g) = [1, 2, 3, 4, 5, 6, 7, 8, 9, 10, 11, 12, 13, 14, 15, 16, 17, 18, 19, 20,
            21, 22, 23, 24]"
    by simp
  with g(3) have "unat (counter g) = 578437695752307201"
    by simp
  with g(1) b a show ?thesis
    by blast
qed

text \<open>
  C6. Next never panics: in every generator state it returns the composed identifier of
  24 bytes, the little-endian encoding of the counter plus one followed by bytes 8 to 23
  of the seed, and leaves the generator with the counter advanced. At the largest
  counter value the counter wraps to 0 and the call returns like any other (eight zero
  bytes followed by bytes 8 to 23 of the seed); after \<open>2 ^ 64\<close> calls, all of which
  return, the generator is back in the state it started from.
\<close>

theorem Next_total:
  "(\<forall>m. Next g \<noteq> Panics m)
     \<and> (\<exists>u g'. Next g = Returns (u, g') \<and> length (bytes u) = 24
           \<and> bytes u = le64 (counter g + 1) @ drop 8 (bytes (seed g))
           \<and> g' = g\<lparr>counter := counter g + 1\<rparr>)
     \<and> (\<exists>u g'. Next (g\<lparr>counter := - 1\<rparr>) = Returns (u, g') \<and> counter g' = 0 \<and> leading u = 0
           \<and> take 8 (bytes u) = replicate 8 0
           \<and> bytes u = replicate 8 0 @ drop 8 (bytes (seed g))
           \<and> g' = g\<lparr>counter := 0\<rparr>)
     \<and> (\<exists>us. Next_n (2 ^ 64) g = Returns (us, g) \<and> length us = 2 ^ 64)"
proof -
  have a: "\<forall>m. Next g \<noteq> Panics m"
    by (simp add: Next_eq)
  have b: "\<exists>u g'. Next g = Returns (u, g') \<and> length (bytes u) = 24
      \<and> bytes u = le64 (counter g + 1) @ drop 8 (bytes (seed g))
      \<and> g' = g\<lparr>counter := counter g + 1\<rparr>"
    by (simp add: Next_eq length_bytes bytes_identifier)
  have z: "le64 0 = replicate 8 0"
    by (simp add: le64_unfold numeral_eq_Suc)
  have n: "Next (g\<lparr>counter := - 1\<rparr>)
      = Returns (copy_into (seed g) (le64 0), g\<lparr>counter := 0\<rparr>)"
    by (simp add: Next_eq)
  have w: "bytes (copy_into (seed g) (le64 0)) = le64 0 @ drop 8 (bytes (seed g))"
    by (rule bytes_identifier)
  have t: "take 8 (bytes (copy_into (seed g) (le64 0))) = le64 0"
    by (simp add: bytes_identifier length_le64)
  have l: "leading (copy_into (seed g) (le64 0)) = 0"
    by (simp add: leading_identifier)
  have c: "\<exists>u g'. Next (g\<lparr>counter := - 1\<rparr>) = Returns (u, g') \<and> counter g' = 0
      \<and> leading u = 0 \<and> take 8 (bytes u) = replicate 8 0
      \<and> bytes u = replicate 8 0 @ drop 8 (bytes (seed g))
      \<and> g' = g\<lparr>counter := 0\<rparr>"
    unfolding n using w t l by (simp add: z [symmetric])
  have "(of_nat (2 ^ 64) :: uint64) = 0"
    using of_nat_eq_64 [of "2 ^ 64" 0] by simp
  then have d: "\<exists>us. Next_n (2 ^ 64) g = Returns (us, g) \<and> length us = 2 ^ 64"
    by (rule Next_n_cycle)
  from a b c d show ?thesis
    by blast
qed

text \<open>
  C7. MustNewGenerator returns the generator of NewGenerator when NewGenerator returns
  no error, and panics with the error of NewGenerator when it returns one; so, whatever
  the random source supplies, it returns the same generator or panics where NewGenerator
  fails.
\<close>

theorem MustNewGenerator_like_NewGenerator:
  "(\<forall>p. NewGenerator r = Returns (p, None) \<longrightarrow> MustNewGenerator r = Returns p)
     \<and> (\<forall>p e. NewGenerator r = Returns (p, Some e) \<longrightarrow> MustNewGenerator r = Panics e)
     \<and> (24 \<le> length (available r) \<longrightarrow>
          (\<exists>g. NewGenerator r = Returns (Some g, None) \<and> MustNewGenerator r = Returns (Some g)))
     \<and> (length (available r) < 24 \<longrightarrow>
          (\<exists>e. NewGenerator r = Returns (None, Some e) \<and> MustNewGenerator r = Panics e))"
proof -
  have a: "\<forall>p. NewGenerator r = Returns (p, None) \<longrightarrow> MustNewGenerator r = Returns p"
    by (simp add: MustNewGenerator_def)
  have b: "\<forall>p e. NewGenerator r = Returns (p, Some e) \<longrightarrow> MustNewGenerator r = Panics e"
    by (simp add: MustNewGenerator_def)
  have c: "24 \<le> length (available r) \<longrightarrow>
      (\<exists>g. NewGenerator r = Returns (Some g, None) \<and> MustNewGenerator r = Returns (Some g))"
    using NewGenerator_full [of r] by (auto simp: MustNewGenerator_def)
  have d: "length (available r) < 24 \<longrightarrow>
      (\<exists>e. NewGenerator r = Returns (None, Some e) \<and> MustNewGenerator r = Panics e)"
    using NewGenerator_short [of r] by (auto simp: MustNewGenerator_def)
  from a b c d show ?thesis
    by blast
qed

theorem MustNewGenerator_like_NewGenerator_witness:
  "MustNewGenerator \<lparr>available = [1, 2, 3], failure = ''unexpected EOF''\<rparr>
       = Panics ''cannot generate random seed: unexpected EOF''
     \<and> (\<exists>g. NewGenerator \<lparr>available = replicate 24 0, failure = ''EOF''\<rparr> = Returns (Some g, None)
           \<and> MustNewGenerator \<lparr>available = replicate 24 0, failure = ''EOF''\<rparr> = Returns (Some g))"
proof -
  let ?r = "\<lparr>available = [1, 2, 3], failure = ''unexpected EOF''\<rparr>"
  let ?s = "\<lparr>available = replicate 24 0, failure = ''EOF''\<rparr>"
  have "NewGenerator ?r = Returns (None, Some ''cannot generate random seed: unexpected EOF'')"
    by (simp add: NewGenerator_short)
  with MustNewGenerator_like_NewGenerator [of ?r]
  have a: "MustNewGenerator ?r = Panics ''cannot generate random seed: unexpected EOF''"
    by blast
  have "24 \<le> length (available ?s)"
    by simp
  with MustNewGenerator_like_NewGenerator [of ?s]
  have "\<exists>g. NewGenerator ?s = Returns (Some g, None) \<and> MustNewGenerator ?s = Returns (Some g)"
    by blast
  with a show ?thesis
    by blast
qed

text \<open>
  C8. ValidHex128 holds of a string exactly when the string has 36 characters, has a
  hyphen at each of the positions 8, 13, 18 and 23, and has one of the characters
  0 to 9 and a to f at every other position.
\<close>

theorem ValidHex128_iff:
  "ValidHex128 s \<longleftrightarrow>
     length s = 36
     \<and> (\<forall>i<36. if i \<in> {8, 13, 18, 23} then s ! i = CHR ''-''
                 else s ! i \<in> set ''0123456789abcdef'')"
proof (cases "length s = 36")
  case False
  then show ?thesis
    by (simp add: ValidHex128_def)
next
  case True
  let ?P = "\<lambda>c. c \<in> set ''0123456789abcdef''"
  have h: "isLowerHex = ?P"
    by (rule ext) (rule isLowerHex_iff)
  have a: "list_all ?P (take 8 s) \<longleftrightarrow> (\<forall>i. 0 \<le> i \<and> i < 0 + 8 \<longrightarrow> ?P (s ! i))"
    using list_all_slice [of 0 8 s ?P] True by simp
  have b: "list_all ?P (take 4 (drop 9 s)) \<longleftrightarrow> (\<forall>i. 9 \<le> i \<and> i < 9 + 4 \<longrightarrow> ?P (s ! i))"
    using True by (intro list_all_slice) simp
  have c: "list_all ?P (take 4 (drop 14 s)) \<longleftrightarrow> (\<forall>i. 14 \<le> i \<and> i < 14 + 4 \<longrightarrow> ?P (s ! i))"
    using True by (intro list_all_slice) simp
  have d: "list_all ?P (take 4 (drop 19 s)) \<longleftrightarrow> (\<forall>i. 19 \<le> i \<and> i < 19 + 4 \<longrightarrow> ?P (s ! i))"
    using True by (intro list_all_slice) simp
  have e: "list_all ?P (drop 24 s) \<longleftrightarrow> (\<forall>i. 24 \<le> i \<and> i < 24 + 12 \<longrightarrow> ?P (s ! i))"
    using list_all_slice [of 24 12 s ?P] True by simp
  have r: "i < 36 \<Longrightarrow> i \<notin> {8, 13, 18, 23} \<Longrightarrow>
      i < 8 \<or> (9 \<le> i \<and> i < 13) \<or> (14 \<le> i \<and> i < 18) \<or> (19 \<le> i \<and> i < 23) \<or> (24 \<le> i \<and> i < 36)"
    for i :: nat
    by simp arith
  show ?thesis
  proof
    assume v: "ValidHex128 s"
    show "length s = 36 \<and> (\<forall>i<36. if i \<in> {8, 13, 18, 23} then s ! i = CHR ''-''
                 else s ! i \<in> set ''0123456789abcdef'')"
    proof (intro conjI allI impI)
      show "length s = 36" by (rule True)
    next
      fix i :: nat
      assume i: "i < 36"
      show "if i \<in> {8, 13, 18, 23} then s ! i = CHR ''-'' else s ! i \<in> set ''0123456789abcdef''"
      proof (cases "i \<in> {8, 13, 18, 23}")
        case True
        with v show ?thesis
          by (auto simp: ValidHex128_def)
      next
        case False
        from v have "(\<forall>i. 0 \<le> i \<and> i < 0 + 8 \<longrightarrow> ?P (s ! i))" "(\<forall>i. 9 \<le> i \<and> i < 9 + 4 \<longrightarrow> ?P (s ! i))"
          "(\<forall>i. 14 \<le> i \<and> i < 14 + 4 \<longrightarrow> ?P (s ! i))" "(\<forall>i. 19 \<le> i \<and> i < 19 + 4 \<longrightarrow> ?P (s ! i))"
          "(\<forall>i. 24 \<le> i \<and> i < 24 + 12 \<longrightarrow> ?P (s ! i))"
          unfolding ValidHex128_def h a b c d e by blast+
        with r [OF i False] have "?P (s ! i)"
          by auto
        with False show ?thesis
          by (simp only: if_False)
      qed
    qed
  next
    assume w: "length s = 36 \<and> (\<forall>i<36. if i \<in> {8, 13, 18, 23} then s ! i = CHR ''-''
                 else s ! i \<in> set ''0123456789abcdef'')"
    then have f: "i < 36 \<Longrightarrow> (if i \<in> {8, 13, 18, 23} then s ! i = CHR ''-''
                 else ?P (s ! i))" for i
      by blast
    have "s ! 8 = CHR ''-''" "s ! 13 = CHR ''-''" "s ! 18 = CHR ''-''" "s ! 23 = CHR ''-''"
      using f [of 8] f [of 13] f [of 18] f [of 23] by simp_all
    moreover have "?P (s ! i)" if "i < 36" "i \<notin> {8, 13, 18, 23}" for i
      using f [OF that(1)] that(2) by (simp only: if_False)
    then have "(\<forall>i. 0 \<le> i \<and> i < 0 + 8 \<longrightarrow> ?P (s ! i))" "(\<forall>i. 9 \<le> i \<and> i < 9 + 4 \<longrightarrow> ?P (s ! i))"
          "(\<forall>i. 14 \<le> i \<and> i < 14 + 4 \<longrightarrow> ?P (s ! i))" "(\<forall>i. 19 \<le> i \<and> i < 19 + 4 \<longrightarrow> ?P (s ! i))"
          "(\<forall>i. 24 \<le> i \<and> i < 24 + 12 \<longrightarrow> ?P (s ! i))"
      by simp_all
    ultimately show "ValidHex128 s"
      unfolding ValidHex128_def h a b c d e using True by blast
  qed
qed

theorem ValidHex128_iff_witness:
  "ValidHex128 ''01020304-0506-0708-090a-0b0c0d0e0f10''
     \<and> \<not> ValidHex128 ''01020304-0506-0708-090A-0b0c0d0e0f10''"
proof -
  let ?s = "''01020304-0506-0708-090a-0b0c0d0e0f10''"
  let ?t = "''01020304-0506-0708-090A-0b0c0d0e0f10''"
  have "\<forall>i<36. if i \<in> {8, 13, 18, 23} then ?s ! i = CHR ''-''
                 else ?s ! i \<in> set ''0123456789abcdef''"
    by (simp add: numeral_eq_Suc All_less_Suc)
  moreover have "length ?s = 36"
    by simp
  ultimately have a: "ValidHex128 ?s"
    using ValidHex128_iff [of ?s] by blast
  have b: "\<not> ValidHex128 ?t"
  proof
    assume "ValidHex128 ?t"
    with ValidHex128_iff [of ?t]
    have "\<forall>i<36. if i \<in> {8, 13, 18, 23} then ?t ! i = CHR ''-''
                 else ?t ! i \<in> set ''0123456789abcdef''"
      by blast
    moreover have "(22::nat) < 36"
      by simp
    ultimately have "if (22::nat) \<in> {8, 13, 18, 23} then ?t ! 22 = CHR ''-''
                 else ?t ! 22 \<in> set ''0123456789abcdef''"
      by blast
    then show False
      by simp
  qed
  from a b show ?thesis
    by blast
qed

text \<open>
  C9. Hex128 of an identifier whose first 16 bytes are 01 02 ... 0f 10 is the string
  01020304-0506-4a08-8907-0b0c0d0e0f10; for every identifier the result has 36
  characters with the digit 4 at position 14 and the digit 8 at position 19, whatever
  the identifier holds; and two identifiers with the same first 16 bytes have the same
  result.
\<close>

theorem Hex128_rendering:
  "(\<forall>u. take 16 (bytes u) = [1, 2, 3, 4, 5, 6, 7, 8, 9, 10, 11, 12, 13, 14, 15, 16] \<longrightarrow>
        Hex128 u = ''01020304-0506-4a08-8907-0b0c0d0e0f10'')
     \<and> (\<forall>u. length (Hex128 u) = 36 \<and> Hex128 u ! 14 = CHR ''4'' \<and> Hex128 u ! 19 = CHR ''8'')
     \<and> (\<forall>u v. take 16 (bytes u) = take 16 (bytes v) \<longrightarrow> Hex128 u = Hex128 v)"
proof (intro conjI allI impI)
  fix u
  assume "take 16 (bytes u) = [1, 2, 3, 4, 5, 6, 7, 8, 9, 10, 11, 12, 13, 14, 15, 16]"
  then show "Hex128 u = ''01020304-0506-4a08-8907-0b0c0d0e0f10''"
    by (simp add: Hex128_def Let_def hex_Encode_def hextable_def)
next
  fix u
  show "length (Hex128 u) = 36" "Hex128 u ! 14 = CHR ''4''" "Hex128 u ! 19 = CHR ''8''"
    using Hex128_markers [of u] by simp_all
next
  fix u v
  assume "take 16 (bytes u) = take 16 (bytes v)"
  then show "Hex128 u = Hex128 v"
    by (simp add: Hex128_def)
qed

theorem Hex128_rendering_witness:
  "Hex128 (copy_into zero24 [1, 2, 3, 4, 5, 6, 7, 8, 9, 10, 11, 12, 13, 14, 15, 16, 17, 18, 19,
       20, 21, 22, 23, 24]) = ''01020304-0506-4a08-8907-0b0c0d0e0f10''
     \<and> Hex128 (copy_into zero24 [1, 2, 3, 4, 5, 6, 7, 8, 9, 10, 11, 12, 13, 14, 15, 16])
         = ''01020304-0506-4a08-8907-0b0c0d0e0f10''"
proof -
  let ?u = "copy_into zero24 [1, 2, 3, 4, 5, 6, 7, 8, 9, 10, 11, 12, 13, 14, 15, 16, 17, 18, 19,
       20, 21, 22, 23, 24]"
  let ?v = "copy_into zero24 [1, 2, 3, 4, 5, 6, 7, 8, 9, 10, 11, 12, 13, 14, 15, 16]"
  have u: "take 16 (bytes ?u) = [1, 2, 3, 4, 5, 6, 7, 8, 9, 10, 11, 12, 13, 14, 15, 16]"
    by (simp add: bytes_copy_into)
  have v: "take 16 (bytes ?v) = take 16 (bytes ?u)"
    by (simp add: bytes_copy_into)
  from Hex128_rendering u have a: "Hex128 ?u = ''01020304-0506-4a08-8907-0b0c0d0e0f10''"
    by blast
  from Hex128_rendering v have "Hex128 ?v = Hex128 ?u"
    by blast
  with a show ?thesis
    by simp
qed

text \<open>
  C10. Whenever NewGenerator returns a non-nil error, the generator pointer it returns
  is nil.
\<close>

theorem NewGenerator_failure_nil:
  "NewGenerator r = Returns (p, Some e) \<Longrightarrow> p = None"
proof (cases "length (available r) < 24")
  case True
  assume "NewGenerator r = Returns (p, Some e)"
  with NewGenerator_short [OF True] show ?thesis by simp
next
  case False
  then have "24 \<le> length (available r)" by simp
  from NewGenerator_full [OF this] obtain g where "NewGenerator r = Returns (Some g, None)"
    by blast
  moreover assume "NewGenerator r = Returns (p, Some e)"
  ultimately show ?thesis by simp
qed

theorem NewGenerator_failure_nil_witness:
  "\<exists>p e. NewGenerator \<lparr>available = [1, 2, 3], failure = ''unexpected EOF''\<rparr> = Returns (p, Some e)
     \<and> p = None"
proof -
  have h: "NewGenerator \<lparr>available = [1, 2, 3], failure = ''unexpected EOF''\<rparr>
      = Returns (None, Some ''cannot generate random seed: unexpected EOF'')"
    by (simp add: NewGenerator_short)
  from NewGenerator_failure_nil [OF h] h show ?thesis by blast
qed

end
